theory Spec2Isabelle
  imports Complex_Main "HOL-Library.AList"
begin

section \<open>The export coordinator (app/render/backend/exporter.cpp)\<close>

text \<open>
  The exporter is a Qt object driven by signals. Its member functions are modelled as
  functions on a record of its member variables; every request sent to a collaborator
  (encoder, video backend, audio backend) and every signal it emits is appended to the
  field \<open>trace\<close>. Timestamps are exact rationals (\<open>rational\<close> in the source).
\<close>

subsection \<open>Data\<close>

type_synonym QByteArray = string

type_synonym TimeRange = "rat \<times> rat"

datatype PixelFormat = PIX_FMT_RGBA32F | PIX_FMT_OTHER nat

record 'p frame =
  pixels :: 'p
  format :: PixelFormat
  timestamp :: rat

datatype OperatingMode = kHashOnly | kRenderOnly

text \<open>
  The four stages of the conversion run by \<open>EncodeFrame\<close> are functions of collaborators
  whose bodies are not part of the source files (\<open>TextureToFrame\<close> is virtual,
  \<open>PixelService::ConvertPixelFormat\<close>, \<open>ColorManager::DisassociateAlpha\<close> and
  \<open>ColorProcessor::ConvertFrame\<close> are external); they are parameters of the model.
\<close>

record ('v, 'p) pipeline =
  TextureToFrame :: "'v \<Rightarrow> 'p frame"
  ConvertPixelFormat :: "'p frame \<Rightarrow> PixelFormat \<Rightarrow> 'p frame"
  DisassociateAlpha :: "'p frame \<Rightarrow> 'p frame"
  ConvertFrame :: "'p frame \<Rightarrow> 'p frame"

datatype ('v, 'p) action =
    VideoSetViewerNode
  | VideoSetParameters rat
  | AudioSetViewerNode
  | AudioSetParameters
  | EncoderOpen
  | EncoderClose
  | VideoSetOperatingMode OperatingMode
  | VideoSetOnlySignalLastFrameRequested bool
  | VideoInvalidateCache rat rat
  | AudioInvalidateCache rat rat
  | CallTextureToFrame 'v
  | CallConvertPixelFormat
  | CallDisassociateAlpha
  | CallConvertFrame
  | WriteFrame "'p frame"
  | WriteAudio
  | AudioDeleteLater
  | VideoDeleteLater
  | Cleanup
  | ProgressChanged int
  | ExportEnded

record ('v, 'p) exporter =
  video_backend :: bool
  video_done :: bool
  audio_done :: bool
  export_status :: bool
  export_msg :: string
  time_base :: rat
  waiting_for_frame :: rat
  cached_frames :: "(rat \<times> 'v) list"
  matched_frames :: "QByteArray \<rightharpoonup> rat list"
  viewer_length :: rat
  time_hash_map :: "(rat \<times> QByteArray) list"
  conn_encoder :: bool
  conn_closed :: bool
  conn_hashes :: bool
  conn_frames :: bool
  conn_audio :: bool
  deleted :: bool
  trace :: "('v, 'p) action list"

text \<open>
  \<open>video_backend\<close> says whether the pointer \<open>video_backend_\<close> is non-null.
  \<open>time_base\<close> is \<open>video_params_.time_base()\<close>, \<open>viewer_length\<close> is
  \<open>viewer_node_->Length()\<close> and \<open>time_hash_map\<close> is the map
  \<open>video_backend_->frame_cache()->time_hash_map()\<close> of the video backend, in increasing key
  order as a \<open>QMap\<close> iterates. The \<open>conn_\<close> fields record the \<open>connect\<close> calls: a slot
  runs only for a signal that has been connected to it. \<open>deleted\<close> records that
  \<open>ExportEnded\<close> was emitted, which the constructor connects to \<open>deleteLater\<close>.
\<close>

definition emit :: "('v, 'p) action list \<Rightarrow> ('v, 'p) exporter \<Rightarrow> ('v, 'p) exporter" where
  "emit as s = s\<lparr>trace := trace s @ as\<rparr>"

text \<open>\<open>QMap::value(key)\<close>: the stored value, or a default-constructed one.\<close>

definition QMap_value :: "('k \<rightharpoonup> 'a list) \<Rightarrow> 'k \<Rightarrow> 'a list" where
  "QMap_value m k = (case m k of None \<Rightarrow> [] | Some v \<Rightarrow> v)"

text \<open>
  Modelled after Qt's \<open>qRound(double)\<close>, which rounds half away from zero; the doubles
  obtained by \<open>toDouble()\<close> are taken as the exact rationals.
\<close>

definition qRound :: "rat \<Rightarrow> int" where
  "qRound d = (if 0 \<le> d then \<lfloor>d + 1 / 2\<rfloor> else \<lceil>d - 1 / 2\<rceil>)"

text \<open>
  Modelled from the spec: \<open>TimeRangeList::RemoveTimeRange\<close> is not among the source
  files. A time range is the closed-open interval \<open>[in, out)\<close>, and removing a range
  from a list of ranges subtracts it from every range of the list.
\<close>

fun range_minus :: "TimeRange \<Rightarrow> TimeRange \<Rightarrow> TimeRange list" where
  "range_minus (a, b) (x, y) =
     (if a < min b x then [(a, min b x)] else []) @
     (if max a y < b then [(max a y, b)] else [])"

definition RemoveTimeRange :: "TimeRange \<Rightarrow> TimeRange list \<Rightarrow> TimeRange list" where
  "RemoveTimeRange r rs = concat (map (\<lambda>c. range_minus c r) rs)"

definition in_ranges :: "TimeRange list \<Rightarrow> rat \<Rightarrow> bool" where
  "in_ranges rs t = list_ex (\<lambda>(a, b). a \<le> t \<and> t < b) rs"

subsection \<open>Construction and configuration\<close>

definition Exporter :: "rat \<Rightarrow> (rat \<times> QByteArray) list \<Rightarrow> ('v, 'p) exporter" where
  "Exporter len thm =
     \<lparr>video_backend = False, video_done = True, audio_done = True, export_status = False,
      export_msg = ''Export hasn't started yet'', time_base = 0, waiting_for_frame = 0,
      cached_frames = [], matched_frames = Map.empty, viewer_length = len,
      time_hash_map = thm, conn_encoder = False, conn_closed = False, conn_hashes = False,
      conn_frames = False, conn_audio = False, deleted = False, trace = []\<rparr>"

definition EnableVideo :: "rat \<Rightarrow> ('v, 'p) exporter \<Rightarrow> ('v, 'p) exporter" where
  "EnableVideo tb s = s\<lparr>time_base := tb, video_done := False\<rparr>"

definition EnableAudio :: "('v, 'p) exporter \<Rightarrow> ('v, 'p) exporter" where
  "EnableAudio s = s\<lparr>audio_done := False\<rparr>"

definition SetExportMessage :: "string \<Rightarrow> ('v, 'p) exporter \<Rightarrow> ('v, 'p) exporter" where
  "SetExportMessage m s = s\<lparr>export_msg := m\<rparr>"

definition ExportFailed :: "('v, 'p) exporter \<Rightarrow> ('v, 'p) exporter" where
  "ExportFailed s = (emit [ExportEnded] s)\<lparr>deleted := True\<rparr>"

text \<open>
  \<open>Initialize()\<close> is virtual and not part of the source files: its result is the
  parameter \<open>init_ok\<close>, and it is taken to create the backend of each enabled stream.
\<close>

definition StartExporting :: "bool \<Rightarrow> ('v, 'p) exporter \<Rightarrow> ('v, 'p) exporter" where
  "StartExporting init_ok s0 =
     (let s = s0\<lparr>export_status := False\<rparr> in
      if \<not> init_ok then ExportFailed (SetExportMessage ''Failed to initialize exporter'' s)
      else
        let s = s\<lparr>video_backend := \<not> video_done s\<rparr>;
            s = (if \<not> video_done s
                 then (emit [VideoSetViewerNode, VideoSetParameters (time_base s)] s)
                        \<lparr>waiting_for_frame := 0\<rparr>
                 else s);
            s = (if \<not> audio_done s then emit [AudioSetViewerNode, AudioSetParameters] s else s)
        in (emit [EncoderOpen] s)\<lparr>conn_encoder := True\<rparr>)"

definition ExportSucceeded :: "('v, 'p) exporter \<Rightarrow> ('v, 'p) exporter" where
  "ExportSucceeded s =
     (if \<not> audio_done s \<or> \<not> video_done s then s
      else
        let s = emit [Cleanup] s;
            s = (if video_backend s then emit [VideoDeleteLater] s else s);
            s = s\<lparr>export_status := True, conn_closed := True\<rparr>
        in emit [EncoderClose] s)"

subsection \<open>Encoding frames in order\<close>

definition convert :: "('v, 'p) pipeline \<Rightarrow> 'v \<Rightarrow> 'p frame" where
  "convert P v =
     (let fr = TextureToFrame P v;
          fr = (if format fr \<noteq> PIX_FMT_RGBA32F
                then ConvertPixelFormat P fr PIX_FMT_RGBA32F else fr);
          fr = DisassociateAlpha P fr
      in ConvertFrame P fr)"

definition convert_calls :: "('v, 'p) pipeline \<Rightarrow> 'v \<Rightarrow> ('v, 'p) action list" where
  "convert_calls P v =
     [CallTextureToFrame v] @
     (if format (TextureToFrame P v) \<noteq> PIX_FMT_RGBA32F then [CallConvertPixelFormat] else []) @
     [CallDisassociateAlpha, CallConvertFrame]"

text \<open>One pass through the body of the \<open>do\<close> loop of \<open>EncodeFrame\<close>, for the value \<open>v\<close>.\<close>

definition encode_one :: "('v, 'p) pipeline \<Rightarrow> 'v \<Rightarrow> ('v, 'p) exporter \<Rightarrow> ('v, 'p) exporter" where
  "encode_one P v s =
     (let fr = (convert P v)\<lparr>timestamp := waiting_for_frame s\<rparr>;
          s = emit (convert_calls P v @ [WriteFrame fr]) s;
          s = s\<lparr>waiting_for_frame := waiting_for_frame s + time_base s\<rparr>;
          progress = qRound (100 * (waiting_for_frame s / viewer_length s))
      in emit [ProgressChanged progress] s)"

text \<open>
  The rest of the \<open>do ... while (cached_frames_.contains(waiting_for_frame_))\<close> loop after
  its first pass: every further pass takes the value cached for the expected timestamp.
\<close>

function drain :: "('v, 'p) pipeline \<Rightarrow> ('v, 'p) exporter \<Rightarrow> ('v, 'p) exporter" where
  "drain P s =
     (case map_of (cached_frames s) (waiting_for_frame s) of
        None \<Rightarrow> s
      | Some v \<Rightarrow>
          drain P (encode_one P v
            (s\<lparr>cached_frames := AList.delete (waiting_for_frame s) (cached_frames s)\<rparr>)))"
  by pat_completeness auto

lemma length_delete_less:
  "map_of al k = Some v \<Longrightarrow> length (AList.delete k al) < length al"
  by (induction al) (auto simp: less_Suc_eq_le AList.delete_eq intro: le_less_trans split: if_splits)

termination drain
  by (relation "measure (\<lambda>(P, s). length (cached_frames s))")
     (auto simp: encode_one_def emit_def Let_def length_delete_less)

declare drain.simps [simp del]

definition EncodeFrame ::
  "('v, 'p) pipeline \<Rightarrow> rat \<Rightarrow> 'v \<Rightarrow> ('v, 'p) exporter \<Rightarrow> ('v, 'p) exporter" where
  "EncodeFrame P time v s =
     (if time = waiting_for_frame s then
        let s = drain P (encode_one P v s) in
        if viewer_length s \<le> waiting_for_frame s
        then ExportSucceeded (s\<lparr>video_done := True\<rparr>)
        else s
      else s\<lparr>cached_frames := AList.update time v (cached_frames s)\<rparr>)"

definition FrameRendered ::
  "('v, 'p) pipeline \<Rightarrow> rat \<Rightarrow> 'v \<Rightarrow> ('v, 'p) exporter \<Rightarrow> ('v, 'p) exporter" where
  "FrameRendered P time v s =
     (let map_hash = (case map_of (time_hash_map s) time of None \<Rightarrow> [] | Some h \<Rightarrow> h);
          s = EncodeFrame P time v s;
          matching_times = QMap_value (matched_frames s) map_hash
      in fold (\<lambda>t. EncodeFrame P t v) matching_times s)"

subsection \<open>Audio and the encoder's notifications\<close>

definition AudioRendered :: "('v, 'p) exporter \<Rightarrow> ('v, 'p) exporter" where
  "AudioRendered s = emit [WriteAudio, AudioDeleteLater] s"

definition AudioEncodeComplete :: "('v, 'p) exporter \<Rightarrow> ('v, 'p) exporter" where
  "AudioEncodeComplete s = ExportSucceeded (s\<lparr>audio_done := True\<rparr>)"

definition EncoderOpenedSuccessfully :: "('v, 'p) exporter \<Rightarrow> ('v, 'p) exporter" where
  "EncoderOpenedSuccessfully s0 =
     (let s = (if \<not> video_done s0
               then (emit [VideoSetOperatingMode kHashOnly,
                           VideoInvalidateCache 0 (viewer_length s0)] s0)\<lparr>conn_hashes := True\<rparr>
               else s0)
      in if \<not> audio_done s
         then (emit [AudioInvalidateCache 0 (viewer_length s)] s)\<lparr>conn_audio := True\<rparr>
         else s)"

definition EncoderOpenFailed :: "('v, 'p) exporter \<Rightarrow> ('v, 'p) exporter" where
  "EncoderOpenFailed s = ExportFailed (SetExportMessage ''Failed to open encoder'' s)"

definition EncoderClosed :: "('v, 'p) exporter \<Rightarrow> ('v, 'p) exporter" where
  "EncoderClosed s = (emit [ProgressChanged 100, ExportEnded] s)\<lparr>deleted := True\<rparr>"

subsection \<open>Collapsing duplicate hashes\<close>

text \<open>
  The inner \<open>while (j != time_hash_map.end())\<close> loop of \<open>VideoHashesComplete\<close>, for the
  outer iterator at the entry \<open>i\<close>: \<open>j\<close> runs over the entries \<open>js\<close> of the copied map.
  The keys of a \<open>QMap\<close> are unique, so the iterators \<open>i\<close> and \<open>j\<close> differ exactly when
  their keys do. The result is the pair of \<open>ranges\<close> and \<open>matched_frames_\<close>, and the
  entries that were not erased.
\<close>

fun scan_j ::
  "rat \<Rightarrow> rat \<times> QByteArray \<Rightarrow> (rat \<times> QByteArray) list \<Rightarrow>
   TimeRange list \<times> (QByteArray \<rightharpoonup> rat list) \<Rightarrow>
   (TimeRange list \<times> (QByteArray \<rightharpoonup> rat list)) \<times> (rat \<times> QByteArray) list" where
  "scan_j tb i [] (ranges, mf) = ((ranges, mf), [])"
| "scan_j tb i (j # js) (ranges, mf) =
     (if fst i \<noteq> fst j \<and> snd i = snd j then
        scan_j tb i js
          (RemoveTimeRange (fst j, fst j + tb) ranges,
           mf(snd i \<mapsto> QMap_value mf (snd i) @ [fst j]))
      else
        (case scan_j tb i js (ranges, mf) of (st, kept) \<Rightarrow> (st, j # kept)))"

text \<open>
  The outer \<open>for (i = begin(); i != end(); i++)\<close> loop. The iterator \<open>i\<close> walks the entries
  in key order; an entry that an earlier pass erased is no longer in the map \<open>m\<close> and is
  therefore not visited.
\<close>

fun scan_i ::
  "rat \<Rightarrow> (rat \<times> QByteArray) list \<Rightarrow> (rat \<times> QByteArray) list \<Rightarrow>
   TimeRange list \<times> (QByteArray \<rightharpoonup> rat list) \<Rightarrow>
   (TimeRange list \<times> (QByteArray \<rightharpoonup> rat list)) \<times> (rat \<times> QByteArray) list" where
  "scan_i tb [] m st = (st, m)"
| "scan_i tb (i # is) m st =
     (if fst i \<in> fst ` set m then
        (case scan_j tb i m st of (st', m') \<Rightarrow> scan_i tb is m' st')
      else scan_i tb is m st)"

definition VideoHashesComplete :: "('v, 'p) exporter \<Rightarrow> ('v, 'p) exporter" where
  "VideoHashesComplete s0 =
     (let s = s0\<lparr>conn_hashes := False\<rparr>;
          ranges = [(0, viewer_length s)];
          ((ranges, mf), m) =
             scan_i (time_base s) (time_hash_map s) (time_hash_map s) (ranges, matched_frames s);
          s = s\<lparr>matched_frames := mf\<rparr>;
          s = emit [VideoSetOperatingMode kRenderOnly,
                    VideoSetOnlySignalLastFrameRequested False] s;
          s = s\<lparr>conn_frames := True\<rparr>
      in emit (map (\<lambda>(a, b). VideoInvalidateCache a b) ranges) s)"

subsection \<open>Signals delivered to the exporter\<close>

datatype 'v signal =
    OpenSucceeded
  | OpenFailed
  | AudioComplete
  | Closed
  | VideoQueueComplete
  | CachedFrameReady rat 'v
  | AudioQueueComplete

text \<open>
  A signal runs its slot only if it was connected, and nothing runs once the object has
  been handed to \<open>deleteLater\<close>.
\<close>

definition deliver ::
  "('v, 'p) pipeline \<Rightarrow> ('v, 'p) exporter \<Rightarrow> 'v signal \<Rightarrow> ('v, 'p) exporter" where
  "deliver P s e =
     (if deleted s then s
      else case e of
        OpenSucceeded \<Rightarrow> if conn_encoder s then EncoderOpenedSuccessfully s else s
      | OpenFailed \<Rightarrow> if conn_encoder s then EncoderOpenFailed s else s
      | AudioComplete \<Rightarrow> if conn_encoder s then AudioEncodeComplete s else s
      | Closed \<Rightarrow> if conn_closed s then EncoderClosed s else s
      | VideoQueueComplete \<Rightarrow> if conn_hashes s then VideoHashesComplete s else s
      | CachedFrameReady t v \<Rightarrow> if conn_frames s then FrameRendered P t v s else s
      | AudioQueueComplete \<Rightarrow> if conn_audio s then AudioRendered s else s)"

definition run ::
  "('v, 'p) pipeline \<Rightarrow> ('v, 'p) exporter \<Rightarrow> 'v signal list \<Rightarrow> ('v, 'p) exporter" where
  "run P s es = foldl (deliver P) s es"

text \<open>A job: the streams enabled, then \<open>StartExporting\<close>.\<close>

definition job ::
  "bool \<Rightarrow> bool \<Rightarrow> rat \<Rightarrow> rat \<Rightarrow> (rat \<times> QByteArray) list \<Rightarrow> bool \<Rightarrow> ('v, 'p) exporter" where
  "job video audio tb len thm init_ok =
     StartExporting init_ok
       ((if audio then EnableAudio else id)
          ((if video then EnableVideo tb else id) (Exporter len thm)))"

subsection \<open>Reading a trace\<close>

fun written :: "('v, 'p) action list \<Rightarrow> 'p frame list" where
  "written [] = []"
| "written (WriteFrame fr # as) = fr # written as"
| "written (a # as) = written as"

fun progress_values :: "('v, 'p) action list \<Rightarrow> int list" where
  "progress_values [] = []"
| "progress_values (ProgressChanged n # as) = n # progress_values as"
| "progress_values (a # as) = progress_values as"

fun is_request :: "('v, 'p) action \<Rightarrow> bool" where
  "is_request (VideoInvalidateCache a b) = True"
| "is_request (AudioInvalidateCache a b) = True"
| "is_request a = False"


fun is_convert_call :: "('v, 'p) action \<Rightarrow> bool" where
  "is_convert_call (CallTextureToFrame v) = True"
| "is_convert_call a = False"

subsection \<open>Invariants of the encoding loop\<close>

text \<open>
  \<open>in_order\<close>: the frames written so far carry the timestamps \<open>0\<close>, \<open>time_base\<close>,
  \<open>2 * time_base\<close>, ... and the expected timestamp is the next one.
  \<open>progress_tracks\<close>: one progress value per written frame, computed from the expected
  timestamp after that frame. \<open>same_env\<close>: the parameters of the job do not change.
\<close>

definition in_order :: "('v, 'p) exporter \<Rightarrow> bool" where
  "in_order s \<longleftrightarrow>
     waiting_for_frame s = of_nat (length (written (trace s))) * time_base s \<and>
     map timestamp (written (trace s)) =
       map (\<lambda>n. of_nat n * time_base s) [0..<length (written (trace s))]"


definition same_env :: "('v, 'p) exporter \<Rightarrow> ('v, 'p) exporter \<Rightarrow> bool" where
  "same_env s s' \<longleftrightarrow>
     time_base s' = time_base s \<and> viewer_length s' = viewer_length s \<and>
     time_hash_map s' = time_hash_map s"



text \<open>
  \<open>stale_kept time ws\<close>: the timestamp \<open>time\<close> is a key of the cache below the expected
  timestamp, and the frames written after the frames \<open>ws\<close> all have later timestamps.
\<close>

definition stale_kept :: "rat \<Rightarrow> 'p frame list \<Rightarrow> ('v, 'p) exporter \<Rightarrow> bool" where
  "stale_kept time ws s \<longleftrightarrow>
     time \<in> fst ` set (cached_frames s) \<and> time < waiting_for_frame s \<and> 0 \<le> time_base s \<and>
     length ws \<le> length (written (trace s)) \<and>
     take (length ws) (written (trace s)) = ws \<and>
     list_all (\<lambda>fr. time < timestamp fr) (drop (length ws) (written (trace s)))"

text \<open>The timestamps of the map \<open>m\<close> whose hash is \<open>h\<close>, in key order.\<close>

definition times_with :: "QByteArray \<Rightarrow> (rat \<times> QByteArray) list \<Rightarrow> rat list" where
  "times_with h m = map fst (filter (\<lambda>e. snd e = h) m)"

text \<open>
  The ranges the video backend was asked to invalidate while in render-only mode: the
  render requests.
\<close>

fun requests_in_mode :: "OperatingMode option \<Rightarrow> ('v, 'p) action list \<Rightarrow> TimeRange list" where
  "requests_in_mode md [] = []"
| "requests_in_mode md (VideoSetOperatingMode md' # as) = requests_in_mode (Some md') as"
| "requests_in_mode md (VideoInvalidateCache a b # as) =
     (if md = Some kRenderOnly then (a, b) # requests_in_mode md as else requests_in_mode md as)"
| "requests_in_mode md (x # as) = requests_in_mode md as"

definition render_requests :: "('v, 'p) action list \<Rightarrow> TimeRange list" where
  "render_requests as = requests_in_mode None as"

text \<open>A video job when the encoder has opened and the hash pass is complete.\<close>

definition hashed ::
  "('v, 'p) pipeline \<Rightarrow> bool \<Rightarrow> rat \<Rightarrow> rat \<Rightarrow> (rat \<times> QByteArray) list \<Rightarrow> ('v, 'p) exporter" where
  "hashed P audio tb len hm =
     run P (job True audio tb len hm True) [OpenSucceeded, VideoQueueComplete]"

subsection \<open>A small job, for concrete instances\<close>

definition example_pipeline :: "(nat, nat) pipeline" where
  "example_pipeline =
     \<lparr>TextureToFrame = (\<lambda>v. \<lparr>pixels = v, format = PIX_FMT_OTHER 0, timestamp = 0\<rparr>),
      ConvertPixelFormat = (\<lambda>fr fmt. fr\<lparr>format := fmt\<rparr>),
      DisassociateAlpha = (\<lambda>fr. fr),
      ConvertFrame = (\<lambda>fr. fr)\<rparr>"

definition example_map :: "(rat \<times> QByteArray) list" where
  "example_map = [(0, ''a''), (1, ''b''), (2, ''c'')]"

definition example_job :: "(nat, nat) exporter" where
  "example_job = run example_pipeline (job True False 1 3 example_map True)
     [OpenSucceeded, VideoQueueComplete, CachedFrameReady 2 12, CachedFrameReady 1 11]"

definition example_first :: "(nat, nat) exporter" where
  "example_first = run example_pipeline (job True False 1 3 example_map True)
     [OpenSucceeded, VideoQueueComplete, CachedFrameReady 0 10]"

definition example_hashes :: "(rat \<times> QByteArray) list" where
  "example_hashes = [(0, ''a''), (1, ''b''), (2, ''a''), (3, ''c''), (4, ''a'')]"

section \<open>The clickable label (app/widget/clickablelabel/clickablelabel.cpp)\<close>

datatype label_signal = MouseClicked | MouseDoubleClicked

record ClickableLabel =
  underMouse :: bool

definition mouseReleaseEvent :: "ClickableLabel \<Rightarrow> label_signal list" where
  "mouseReleaseEvent w = (if underMouse w then [MouseClicked] else [])"

definition mouseDoubleClickEvent :: "ClickableLabel \<Rightarrow> label_signal list" where
  "mouseDoubleClickEvent w = [MouseDoubleClicked]"

section \<open>Lemmas about the exporter\<close>

lemma written_append: "written (xs @ ys) = written xs @ written ys"
  by (induction xs rule: written.induct) simp_all

lemma progress_values_append: "progress_values (xs @ ys) = progress_values xs @ progress_values ys"
  by (induction xs rule: progress_values.induct) simp_all

lemma written_convert_calls: "written (convert_calls P v) = []"
  by (simp add: convert_calls_def)


lemma written_invalidate: "written (map (\<lambda>(a, b). VideoInvalidateCache a b) rs) = []"
  by (induction rs) auto

lemma progress_invalidate: "progress_values (map (\<lambda>(a, b). VideoInvalidateCache a b) rs) = []"
  by (induction rs) auto

text \<open>What one pass of the loop does.\<close>

lemma encode_one_fields:
  "waiting_for_frame (encode_one P v s) = waiting_for_frame s + time_base s"
  "time_base (encode_one P v s) = time_base s"
  "viewer_length (encode_one P v s) = viewer_length s"
  "cached_frames (encode_one P v s) = cached_frames s"
  "matched_frames (encode_one P v s) = matched_frames s"
  "time_hash_map (encode_one P v s) = time_hash_map s"
  "video_done (encode_one P v s) = video_done s"
  "audio_done (encode_one P v s) = audio_done s"
  "export_status (encode_one P v s) = export_status s"
  "export_msg (encode_one P v s) = export_msg s"
  "deleted (encode_one P v s) = deleted s"
  "conn_closed (encode_one P v s) = conn_closed s"
  "conn_frames (encode_one P v s) = conn_frames s"
  "video_backend (encode_one P v s) = video_backend s"
  by (simp_all add: encode_one_def emit_def Let_def)

lemma encode_one_trace:
  "trace (encode_one P v s) =
     trace s @ convert_calls P v @
       [WriteFrame ((convert P v)\<lparr>timestamp := waiting_for_frame s\<rparr>),
        ProgressChanged (qRound (100 * ((waiting_for_frame s + time_base s) / viewer_length s)))]"
  by (simp add: encode_one_def emit_def Let_def)

lemma drain_fields:
  "time_base (drain P s) = time_base s \<and>
   viewer_length (drain P s) = viewer_length s \<and>
   matched_frames (drain P s) = matched_frames s \<and>
   time_hash_map (drain P s) = time_hash_map s \<and>
   video_done (drain P s) = video_done s \<and>
   audio_done (drain P s) = audio_done s \<and>
   export_status (drain P s) = export_status s \<and>
   export_msg (drain P s) = export_msg s \<and>
   deleted (drain P s) = deleted s \<and>
   conn_closed (drain P s) = conn_closed s \<and>
   conn_frames (drain P s) = conn_frames s \<and>
   video_backend (drain P s) = video_backend s"
proof (induction P s rule: drain.induct)
  case (1 P s)
  show ?case
  proof (cases "map_of (cached_frames s) (waiting_for_frame s)")
    case None
    then show ?thesis by (simp add: drain.simps [of P s])
  next
    case (Some v)
    with "1" [OF Some] show ?thesis
      by (simp add: drain.simps [of P s] encode_one_fields)
  qed
qed

lemma drain_exit: "map_of (cached_frames (drain P s)) (waiting_for_frame (drain P s)) = None"
proof (induction P s rule: drain.induct)
  case (1 P s)
  show ?case
  proof (cases "map_of (cached_frames s) (waiting_for_frame s)")
    case None
    then show ?thesis by (simp add: drain.simps [of P s])
  next
    case (Some v)
    with "1" [OF Some] show ?thesis
      by (simp add: drain.simps [of P s])
  qed
qed

lemma in_order_encode_one: "in_order s \<Longrightarrow> in_order (encode_one P v s)"
  by (simp add: in_order_def encode_one_fields encode_one_trace written_append
      written_convert_calls algebra_simps)


lemma drain_unfold:
  "drain P s =
     (case map_of (cached_frames s) (waiting_for_frame s) of
        None \<Rightarrow> s
      | Some v \<Rightarrow>
          drain P (encode_one P v
            (s\<lparr>cached_frames := AList.delete (waiting_for_frame s) (cached_frames s)\<rparr>)))"
  by (rule drain.simps)

lemma drain_preserves:
  assumes step: "\<And>v s. I s \<Longrightarrow> I (encode_one P v s)"
    and cache: "\<And>s. I s \<Longrightarrow>
      I (s\<lparr>cached_frames := AList.delete (waiting_for_frame s) (cached_frames s)\<rparr>)"
  shows "I s \<Longrightarrow> I (drain P s)"
proof (induction "length (cached_frames s)" arbitrary: s rule: less_induct)
  case less
  show ?case
  proof (cases "map_of (cached_frames s) (waiting_for_frame s)")
    case None
    with less.prems show ?thesis by (subst drain_unfold) simp
  next
    case (Some v)
    let ?s' = "encode_one P v
      (s\<lparr>cached_frames := AList.delete (waiting_for_frame s) (cached_frames s)\<rparr>)"
    have "I ?s'"
      by (rule step, rule cache, rule less.prems)
    moreover have "length (cached_frames ?s') < length (cached_frames s)"
      using Some by (simp add: encode_one_fields length_delete_less)
    ultimately have "I (drain P ?s')"
      by (rule less.hyps [rotated])
    with Some show ?thesis by (subst drain_unfold) simp
  qed
qed

lemma in_order_drain:
  assumes "in_order s"
  shows "in_order (drain P s)"
proof (rule drain_preserves [where I = in_order])
  show "in_order s" by fact
  show "\<And>v s. in_order s \<Longrightarrow> in_order (encode_one P v s)"
    by (rule in_order_encode_one)
  show "\<And>s. in_order s \<Longrightarrow>
      in_order (s\<lparr>cached_frames := AList.delete (waiting_for_frame s) (cached_frames s)\<rparr>)"
    by (simp add: in_order_def)
qed


text \<open>The slots other than \<open>EncodeFrame\<close> write no frame and leave the expected timestamp alone.\<close>

lemma ExportSucceeded_fields:
  "waiting_for_frame (ExportSucceeded s) = waiting_for_frame s"
  "time_base (ExportSucceeded s) = time_base s"
  "viewer_length (ExportSucceeded s) = viewer_length s"
  "cached_frames (ExportSucceeded s) = cached_frames s"
  "matched_frames (ExportSucceeded s) = matched_frames s"
  "time_hash_map (ExportSucceeded s) = time_hash_map s"
  "video_done (ExportSucceeded s) = video_done s"
  "audio_done (ExportSucceeded s) = audio_done s"
  "deleted (ExportSucceeded s) = deleted s"
  "conn_frames (ExportSucceeded s) = conn_frames s"
  "export_msg (ExportSucceeded s) = export_msg s"
  "written (trace (ExportSucceeded s)) = written (trace s)"
  "progress_values (trace (ExportSucceeded s)) = progress_values (trace s)"
  by (simp_all add: ExportSucceeded_def emit_def Let_def written_append progress_values_append)


lemma in_order_flags:
  "in_order (s\<lparr>video_done := b\<rparr>) = in_order s"
  "in_order (s\<lparr>audio_done := b\<rparr>) = in_order s"
  "in_order (s\<lparr>cached_frames := c\<rparr>) = in_order s"
  by (simp_all add: in_order_def)


lemma in_order_ExportSucceeded: "in_order (ExportSucceeded s) = in_order s"
  by (simp add: in_order_def ExportSucceeded_fields)


lemma in_order_EncodeFrame: "in_order s \<Longrightarrow> in_order (EncodeFrame P t v s)"
  by (simp add: EncodeFrame_def Let_def in_order_ExportSucceeded in_order_flags
      in_order_drain in_order_encode_one)


lemma fold_preserves:
  assumes "\<And>x s. I s \<Longrightarrow> I (f x s)"
  shows "I s \<Longrightarrow> I (fold f xs s)"
  using assms by (induction xs arbitrary: s) simp_all

lemma in_order_FrameRendered: "in_order s \<Longrightarrow> in_order (FrameRendered P t v s)"
  unfolding FrameRendered_def Let_def
  by (rule fold_preserves [where I = in_order]) (simp_all add: in_order_EncodeFrame)


lemma VideoHashesComplete_fields:
  "waiting_for_frame (VideoHashesComplete s) = waiting_for_frame s"
  "time_base (VideoHashesComplete s) = time_base s"
  "viewer_length (VideoHashesComplete s) = viewer_length s"
  "cached_frames (VideoHashesComplete s) = cached_frames s"
  "time_hash_map (VideoHashesComplete s) = time_hash_map s"
  "video_done (VideoHashesComplete s) = video_done s"
  "audio_done (VideoHashesComplete s) = audio_done s"
  "deleted (VideoHashesComplete s) = deleted s"
  "export_status (VideoHashesComplete s) = export_status s"
  "export_msg (VideoHashesComplete s) = export_msg s"
  "written (trace (VideoHashesComplete s)) = written (trace s)"
  "progress_values (trace (VideoHashesComplete s)) = progress_values (trace s)"
  by (simp_all add: VideoHashesComplete_def emit_def Let_def written_append
      progress_values_append written_invalidate progress_invalidate split: prod.splits)

lemma EncoderOpenedSuccessfully_fields:
  "waiting_for_frame (EncoderOpenedSuccessfully s) = waiting_for_frame s"
  "time_base (EncoderOpenedSuccessfully s) = time_base s"
  "viewer_length (EncoderOpenedSuccessfully s) = viewer_length s"
  "cached_frames (EncoderOpenedSuccessfully s) = cached_frames s"
  "matched_frames (EncoderOpenedSuccessfully s) = matched_frames s"
  "time_hash_map (EncoderOpenedSuccessfully s) = time_hash_map s"
  "video_done (EncoderOpenedSuccessfully s) = video_done s"
  "audio_done (EncoderOpenedSuccessfully s) = audio_done s"
  "deleted (EncoderOpenedSuccessfully s) = deleted s"
  "export_status (EncoderOpenedSuccessfully s) = export_status s"
  "export_msg (EncoderOpenedSuccessfully s) = export_msg s"
  "written (trace (EncoderOpenedSuccessfully s)) = written (trace s)"
  "progress_values (trace (EncoderOpenedSuccessfully s)) = progress_values (trace s)"
  by (simp_all add: EncoderOpenedSuccessfully_def emit_def Let_def written_append
      progress_values_append)

lemma EncoderOpenFailed_fields:
  "waiting_for_frame (EncoderOpenFailed s) = waiting_for_frame s"
  "time_base (EncoderOpenFailed s) = time_base s"
  "viewer_length (EncoderOpenFailed s) = viewer_length s"
  "cached_frames (EncoderOpenFailed s) = cached_frames s"
  "matched_frames (EncoderOpenFailed s) = matched_frames s"
  "time_hash_map (EncoderOpenFailed s) = time_hash_map s"
  "video_done (EncoderOpenFailed s) = video_done s"
  "audio_done (EncoderOpenFailed s) = audio_done s"
  "deleted (EncoderOpenFailed s) = True"
  "export_status (EncoderOpenFailed s) = export_status s"
  "export_msg (EncoderOpenFailed s) = ''Failed to open encoder''"
  "trace (EncoderOpenFailed s) = trace s @ [ExportEnded]"
  by (simp_all add: EncoderOpenFailed_def ExportFailed_def SetExportMessage_def emit_def)

lemma EncoderClosed_fields:
  "waiting_for_frame (EncoderClosed s) = waiting_for_frame s"
  "time_base (EncoderClosed s) = time_base s"
  "viewer_length (EncoderClosed s) = viewer_length s"
  "cached_frames (EncoderClosed s) = cached_frames s"
  "matched_frames (EncoderClosed s) = matched_frames s"
  "time_hash_map (EncoderClosed s) = time_hash_map s"
  "video_done (EncoderClosed s) = video_done s"
  "audio_done (EncoderClosed s) = audio_done s"
  "deleted (EncoderClosed s) = True"
  "export_status (EncoderClosed s) = export_status s"
  "export_msg (EncoderClosed s) = export_msg s"
  "trace (EncoderClosed s) = trace s @ [ProgressChanged 100, ExportEnded]"
  by (simp_all add: EncoderClosed_def emit_def)

lemma AudioRendered_fields:
  "waiting_for_frame (AudioRendered s) = waiting_for_frame s"
  "time_base (AudioRendered s) = time_base s"
  "viewer_length (AudioRendered s) = viewer_length s"
  "cached_frames (AudioRendered s) = cached_frames s"
  "matched_frames (AudioRendered s) = matched_frames s"
  "time_hash_map (AudioRendered s) = time_hash_map s"
  "video_done (AudioRendered s) = video_done s"
  "audio_done (AudioRendered s) = audio_done s"
  "deleted (AudioRendered s) = deleted s"
  "export_status (AudioRendered s) = export_status s"
  "export_msg (AudioRendered s) = export_msg s"
  "trace (AudioRendered s) = trace s @ [WriteAudio, AudioDeleteLater]"
  by (simp_all add: AudioRendered_def emit_def)

lemma AudioEncodeComplete_fields:
  "waiting_for_frame (AudioEncodeComplete s) = waiting_for_frame s"
  "time_base (AudioEncodeComplete s) = time_base s"
  "viewer_length (AudioEncodeComplete s) = viewer_length s"
  "cached_frames (AudioEncodeComplete s) = cached_frames s"
  "matched_frames (AudioEncodeComplete s) = matched_frames s"
  "time_hash_map (AudioEncodeComplete s) = time_hash_map s"
  "video_done (AudioEncodeComplete s) = video_done s"
  "audio_done (AudioEncodeComplete s) = True"
  "deleted (AudioEncodeComplete s) = deleted s"
  "export_msg (AudioEncodeComplete s) = export_msg s"
  "written (trace (AudioEncodeComplete s)) = written (trace s)"
  "progress_values (trace (AudioEncodeComplete s)) = progress_values (trace s)"
  by (simp_all add: AudioEncodeComplete_def ExportSucceeded_fields)

lemma in_order_deliver: "in_order s \<Longrightarrow> in_order (deliver P s e)"
proof (cases e)
  case (CachedFrameReady t v)
  then show "in_order s \<Longrightarrow> in_order (deliver P s e)"
    by (simp add: deliver_def in_order_FrameRendered)
qed (simp_all add: deliver_def in_order_def VideoHashesComplete_fields
      EncoderOpenedSuccessfully_fields EncoderOpenFailed_fields EncoderClosed_fields
      AudioRendered_fields AudioEncodeComplete_fields written_append)

lemma foldl_preserves:
  assumes "\<And>s x. I s \<Longrightarrow> I (f s x)"
  shows "I s \<Longrightarrow> I (foldl f s xs)"
  using assms by (induction xs arbitrary: s) simp_all

lemma in_order_run: "in_order s \<Longrightarrow> in_order (run P s es)"
  unfolding run_def by (rule foldl_preserves [where I = in_order]) (simp_all add: in_order_deliver)

lemma job_fields:
  "time_base (job video audio tb len thm ok) = (if video then tb else 0)"
  "viewer_length (job video audio tb len thm ok) = len"
  "time_hash_map (job video audio tb len thm ok) = thm"
  "waiting_for_frame (job video audio tb len thm ok) = 0"
  "cached_frames (job video audio tb len thm ok) = []"
  "matched_frames (job video audio tb len thm ok) = Map.empty"
  "video_done (job video audio tb len thm ok) = (\<not> video)"
  "audio_done (job video audio tb len thm ok) = (\<not> audio)"
  "export_status (job video audio tb len thm ok) = False"
  "deleted (job video audio tb len thm ok) = (\<not> ok)"
  "conn_frames (job video audio tb len thm ok) = False"
  "conn_closed (job video audio tb len thm ok) = False"
  "written (trace (job video audio tb len thm ok)) = []"
  "progress_values (trace (job video audio tb len thm ok)) = []"
  by (simp_all add: job_def StartExporting_def Exporter_def EnableVideo_def EnableAudio_def
      ExportFailed_def SetExportMessage_def emit_def Let_def)

lemma job_trace:
  "trace (job video audio tb len thm True) =
     (if video then [VideoSetViewerNode, VideoSetParameters tb] else []) @
     (if audio then [AudioSetViewerNode, AudioSetParameters] else []) @ [EncoderOpen]"
  by (simp add: job_def StartExporting_def Exporter_def EnableVideo_def EnableAudio_def
      emit_def Let_def)

lemma deliver_deleted: "deleted s \<Longrightarrow> deliver P s e = s"
  by (simp add: deliver_def)

lemma run_deleted: "deleted s \<Longrightarrow> run P s es = s"
  unfolding run_def by (induction es) (simp_all add: deliver_deleted)

lemma job_conn:
  "conn_encoder (job video audio tb len hm True) = True"
  "conn_audio (job video audio tb len hm ok) = False"
  "conn_hashes (job video audio tb len hm ok) = False"
  "export_msg (job video audio tb len hm True) = ''Export hasn't started yet''"
  by (simp_all add: job_def StartExporting_def Exporter_def EnableVideo_def EnableAudio_def
      ExportFailed_def SetExportMessage_def emit_def Let_def)

lemma in_order_job: "in_order (job video audio tb len thm ok)"
  by (simp add: in_order_def job_fields)

lemma sorted_frame_times:
  "0 < tb \<Longrightarrow> sorted_wrt (<) (map (\<lambda>n. of_nat n * tb) [0..<k] :: rat list)"
  by (simp add: sorted_wrt_map sorted_wrt_iff_nth_less)

lemma map_of_delete: "map_of (AList.delete k al) t = (if t = k then None else map_of al t)"
  by (simp add: AList.delete_conv)

lemma keys_delete: "fst ` set (AList.delete k al) = fst ` set al - {k}"
  by (induction al) (auto simp: AList.delete_eq)

lemma map_of_None_keys: "map_of al k = None \<longleftrightarrow> k \<notin> fst ` set al"
  by (simp add: map_of_eq_None_iff)

text \<open>What the loop writes after its first pass: the consecutive expected timestamps that are cached.\<close>

lemma drain_run:
  assumes tb: "0 < time_base s"
  shows "\<exists>k. map timestamp (written (trace (drain P s))) =
               map timestamp (written (trace s)) @
               map (\<lambda>n. waiting_for_frame s + of_nat n * time_base s) [0..<k] \<and>
             (\<forall>n<k. waiting_for_frame s + of_nat n * time_base s \<in> fst ` set (cached_frames s)) \<and>
             waiting_for_frame s + of_nat k * time_base s \<notin> fst ` set (cached_frames s) \<and>
             waiting_for_frame (drain P s) = waiting_for_frame s + of_nat k * time_base s \<and>
             (\<forall>t. map_of (cached_frames (drain P s)) t =
                  (if \<exists>n<k. t = waiting_for_frame s + of_nat n * time_base s then None
                   else map_of (cached_frames s) t))"
  using tb
proof (induction "length (cached_frames s)" arbitrary: s rule: less_induct)
  case less
  let ?w = "waiting_for_frame s" and ?tb = "time_base s"
  show ?case
  proof (cases "map_of (cached_frames s) ?w")
    case None
    then have "drain P s = s" by (subst drain_unfold) simp
    with None show ?thesis
      by (intro exI [of _ 0]) (simp add: map_of_None_keys)
  next
    case (Some v)
    let ?s' = "encode_one P v (s\<lparr>cached_frames := AList.delete ?w (cached_frames s)\<rparr>)"
    have d: "drain P s = drain P ?s'"
      using Some by (subst drain_unfold) simp
    have len: "length (cached_frames ?s') < length (cached_frames s)"
      using Some by (simp add: encode_one_fields length_delete_less)
    have tb': "0 < time_base ?s'"
      using less.prems by (simp add: encode_one_fields)
    from less.hyps [OF len tb'] obtain k where
      w: "map timestamp (written (trace (drain P ?s'))) =
            map timestamp (written (trace ?s')) @
            map (\<lambda>n. waiting_for_frame ?s' + of_nat n * time_base ?s') [0..<k]"
      and present: "\<forall>n<k. waiting_for_frame ?s' + of_nat n * time_base ?s' \<in> fst ` set (cached_frames ?s')"
      and absent: "waiting_for_frame ?s' + of_nat k * time_base ?s' \<notin> fst ` set (cached_frames ?s')"
      and wait: "waiting_for_frame (drain P ?s') = waiting_for_frame ?s' + of_nat k * time_base ?s'"
      and cache: "\<forall>t. map_of (cached_frames (drain P ?s')) t =
                  (if \<exists>n<k. t = waiting_for_frame ?s' + of_nat n * time_base ?s' then None
                   else map_of (cached_frames ?s') t)"
      by blast
    have shift: "\<And>n. ?w + ?tb + of_nat n * ?tb = ?w + of_nat (Suc n) * ?tb"
      by (simp add: algebra_simps)
    have in0: "?w \<in> fst ` set (cached_frames s)"
      using Some by (metis map_of_None_keys option.distinct(1))
    have pos: "\<And>n. ?w + of_nat (Suc n) * ?tb \<noteq> ?w"
      using less.prems by simp
    have c1: "map timestamp (written (trace (drain P s))) =
               map timestamp (written (trace s)) @ map (\<lambda>n. ?w + of_nat n * ?tb) [0..<Suc k]"
    proof -
      have "map (\<lambda>n. ?w + of_nat n * ?tb) [0..<Suc k] =
            ?w # map (\<lambda>n. ?w + of_nat (Suc n) * ?tb) [0..<k]"
        by (simp add: upt_conv_Cons map_Suc_upt [symmetric] del: upt_Suc)
      then show ?thesis
        using w by (simp add: d encode_one_fields encode_one_trace written_append
            written_convert_calls shift)
    qed
    have c2: "\<forall>n<Suc k. ?w + of_nat n * ?tb \<in> fst ` set (cached_frames s)"
    proof (intro allI impI)
      fix n assume n: "n < Suc k"
      show "?w + of_nat n * ?tb \<in> fst ` set (cached_frames s)"
      proof (cases n)
        case 0
        with in0 show ?thesis by simp
      next
        case (Suc m)
        with n present have "?w + ?tb + of_nat m * ?tb \<in> fst ` set (AList.delete ?w (cached_frames s))"
          by (simp add: encode_one_fields)
        then show ?thesis
          unfolding keys_delete shift Suc by blast
      qed
    qed
    have c3: "?w + of_nat (Suc k) * ?tb \<notin> fst ` set (cached_frames s)"
      using absent pos [of k] unfolding encode_one_fields
      by (simp add: keys_delete shift del: of_nat_Suc)
    have c4: "waiting_for_frame (drain P s) = ?w + of_nat (Suc k) * ?tb"
      using wait by (simp add: d encode_one_fields shift del: of_nat_Suc)
    have c5: "\<forall>t. map_of (cached_frames (drain P s)) t =
                  (if \<exists>n<Suc k. t = ?w + of_nat n * ?tb then None else map_of (cached_frames s) t)"
    proof
      fix t
      have ex: "(\<exists>n<Suc k. t = ?w + of_nat n * ?tb) \<longleftrightarrow>
                t = ?w \<or> (\<exists>n<k. t = ?w + ?tb + of_nat n * ?tb)"
        unfolding shift by (auto simp: less_Suc_eq_0_disj simp del: of_nat_Suc)
      show "map_of (cached_frames (drain P s)) t =
                  (if \<exists>n<Suc k. t = ?w + of_nat n * ?tb then None else map_of (cached_frames s) t)"
        unfolding ex using cache [rule_format, of t]
        by (auto simp: d encode_one_fields map_of_delete)
    qed
    from c1 c2 c3 c4 c5 show ?thesis by blast
  qed
qed

lemma EncodeFrame_other:
  "time \<noteq> waiting_for_frame s \<Longrightarrow>
   EncodeFrame P time v s = s\<lparr>cached_frames := AList.update time v (cached_frames s)\<rparr>"
  by (simp add: EncodeFrame_def)

lemma EncodeFrame_expected_fields:
  "written (trace (EncodeFrame P (waiting_for_frame s) v s)) =
     written (trace (drain P (encode_one P v s)))"
  "waiting_for_frame (EncodeFrame P (waiting_for_frame s) v s) =
     waiting_for_frame (drain P (encode_one P v s))"
  "cached_frames (EncodeFrame P (waiting_for_frame s) v s) =
     cached_frames (drain P (encode_one P v s))"
  by (simp_all add: EncodeFrame_def Let_def ExportSucceeded_fields)

lemma EncodeFrame_run:
  assumes tb: "0 < time_base s"
  shows "\<exists>k. map timestamp (written (trace (EncodeFrame P (waiting_for_frame s) v s))) =
               map timestamp (written (trace s)) @
               map (\<lambda>n. waiting_for_frame s + of_nat n * time_base s) [0..<Suc k] \<and>
             (\<forall>n. 1 \<le> n \<and> n \<le> k \<longrightarrow>
                  waiting_for_frame s + of_nat n * time_base s \<in> fst ` set (cached_frames s)) \<and>
             waiting_for_frame s + of_nat (Suc k) * time_base s \<notin> fst ` set (cached_frames s) \<and>
             waiting_for_frame (EncodeFrame P (waiting_for_frame s) v s) =
               waiting_for_frame s + of_nat (Suc k) * time_base s \<and>
             (\<forall>t. map_of (cached_frames (EncodeFrame P (waiting_for_frame s) v s)) t =
                  (if \<exists>n. 1 \<le> n \<and> n \<le> k \<and> t = waiting_for_frame s + of_nat n * time_base s
                   then None else map_of (cached_frames s) t))"
proof -
  let ?w = "waiting_for_frame s" and ?tb = "time_base s"
  let ?s1 = "encode_one P v s"
  have tb1: "0 < time_base ?s1" using tb by (simp add: encode_one_fields)
  have shift: "\<And>n. ?w + ?tb + of_nat n * ?tb = ?w + of_nat (Suc n) * ?tb"
    by (simp add: algebra_simps)
  from drain_run [OF tb1, of P] obtain k where
    w: "map timestamp (written (trace (drain P ?s1))) =
          map timestamp (written (trace ?s1)) @
          map (\<lambda>n. ?w + of_nat (Suc n) * ?tb) [0..<k]"
    and present: "\<forall>n<k. ?w + of_nat (Suc n) * ?tb \<in> fst ` set (cached_frames s)"
    and absent: "?w + of_nat (Suc k) * ?tb \<notin> fst ` set (cached_frames s)"
    and wait: "waiting_for_frame (drain P ?s1) = ?w + of_nat (Suc k) * ?tb"
    and cache: "\<forall>t. map_of (cached_frames (drain P ?s1)) t =
                  (if \<exists>n<k. t = ?w + of_nat (Suc n) * ?tb then None
                   else map_of (cached_frames s) t)"
    unfolding encode_one_fields shift by blast
  have idx: "\<And>Q. (\<exists>n. 1 \<le> n \<and> n \<le> k \<and> Q n) \<longleftrightarrow> (\<exists>n<k. Q (Suc n))"
    by (metis One_nat_def Suc_le_eq Suc_le_mono less_eq_Suc_le not0_implies_Suc not_less_eq_eq zero_less_Suc)
  have c1: "map timestamp (written (trace (EncodeFrame P ?w v s))) =
               map timestamp (written (trace s)) @ map (\<lambda>n. ?w + of_nat n * ?tb) [0..<Suc k]"
  proof -
    have "map (\<lambda>n. ?w + of_nat n * ?tb) [0..<Suc k] =
            ?w # map (\<lambda>n. ?w + of_nat (Suc n) * ?tb) [0..<k]"
      by (simp add: upt_conv_Cons map_Suc_upt [symmetric] del: upt_Suc)
    then show ?thesis
      using w by (simp add: EncodeFrame_expected_fields encode_one_trace written_append
          written_convert_calls)
  qed
  have c2: "\<forall>n. 1 \<le> n \<and> n \<le> k \<longrightarrow> ?w + of_nat n * ?tb \<in> fst ` set (cached_frames s)"
  proof (intro allI impI)
    fix n assume "1 \<le> n \<and> n \<le> k"
    then obtain m where "n = Suc m" "m < k"
      by (cases n) auto
    with present show "?w + of_nat n * ?tb \<in> fst ` set (cached_frames s)"
      by blast
  qed
  have c5: "\<forall>t. map_of (cached_frames (EncodeFrame P ?w v s)) t =
                  (if \<exists>n. 1 \<le> n \<and> n \<le> k \<and> t = ?w + of_nat n * ?tb
                   then None else map_of (cached_frames s) t)"
    unfolding idx EncodeFrame_expected_fields using cache by blast
  from c1 c2 absent wait c5 show ?thesis
    unfolding EncodeFrame_expected_fields by blast
qed

lemma EncodeFrame_fields:
  "time_base (EncodeFrame P t v s) = time_base s"
  "viewer_length (EncodeFrame P t v s) = viewer_length s"
  "time_hash_map (EncodeFrame P t v s) = time_hash_map s"
  "matched_frames (EncodeFrame P t v s) = matched_frames s"
  "deleted (EncodeFrame P t v s) = deleted s"
  "conn_frames (EncodeFrame P t v s) = conn_frames s"
  "audio_done (EncodeFrame P t v s) = audio_done s"
  "export_msg (EncodeFrame P t v s) = export_msg s"
  by (simp_all add: EncodeFrame_def Let_def ExportSucceeded_fields drain_fields encode_one_fields)

lemma same_env_FrameRendered: "same_env s0 s \<Longrightarrow> same_env s0 (FrameRendered P t v s)"
  unfolding FrameRendered_def Let_def
  by (rule fold_preserves [where I = "same_env s0"])
     (simp_all add: same_env_def EncodeFrame_fields)

lemma same_env_deliver: "same_env s0 s \<Longrightarrow> same_env s0 (deliver P s e)"
proof (cases e)
  case (CachedFrameReady t v)
  then show "same_env s0 s \<Longrightarrow> same_env s0 (deliver P s e)"
    by (simp add: deliver_def same_env_FrameRendered)
qed (simp_all add: deliver_def same_env_def VideoHashesComplete_fields
      EncoderOpenedSuccessfully_fields EncoderOpenFailed_fields EncoderClosed_fields
      AudioRendered_fields AudioEncodeComplete_fields)

lemma same_env_run: "same_env s (run P s es)"
  unfolding run_def
proof (rule foldl_preserves [where I = "same_env s"])
  show "same_env s s" by (simp add: same_env_def)
  show "\<And>s' x. same_env s s' \<Longrightarrow> same_env s (deliver P s' x)"
    by (rule same_env_deliver)
qed

lemma run_env:
  "time_base (run P s es) = time_base s"
  "viewer_length (run P s es) = viewer_length s"
  "time_hash_map (run P s es) = time_hash_map s"
  using same_env_run [of s P es] by (simp_all add: same_env_def)

















lemma VideoHashesComplete_trace:
  "trace (VideoHashesComplete s) =
     trace s @ [VideoSetOperatingMode kRenderOnly, VideoSetOnlySignalLastFrameRequested False] @
     map (\<lambda>(a, b). VideoInvalidateCache a b)
       (fst (fst (scan_i (time_base s) (time_hash_map s) (time_hash_map s)
                    ([(0, viewer_length s)], matched_frames s))))"
  "conn_audio (VideoHashesComplete s) = conn_audio s"
  "conn_closed (VideoHashesComplete s) = conn_closed s"
  by (simp_all add: VideoHashesComplete_def emit_def Let_def split: prod.splits)

lemma EncoderOpenedSuccessfully_trace:
  "trace (EncoderOpenedSuccessfully s) =
     trace s @
     (if video_done s then []
      else [VideoSetOperatingMode kHashOnly, VideoInvalidateCache 0 (viewer_length s)]) @
     (if audio_done s then [] else [AudioInvalidateCache 0 (viewer_length s)])"
  "conn_audio (EncoderOpenedSuccessfully s) = (conn_audio s \<or> \<not> audio_done s)"
  "conn_closed (EncoderOpenedSuccessfully s) = conn_closed s"
  by (simp_all add: EncoderOpenedSuccessfully_def emit_def Let_def)








lemma keys_update: "fst ` set (AList.update k v al) = insert k (fst ` set al)"
  by (induction al) auto

lemma stale_kept_encode_one: "stale_kept time ws s \<Longrightarrow> stale_kept time ws (encode_one P v s)"
  by (auto simp: stale_kept_def encode_one_fields encode_one_trace written_append
      written_convert_calls intro: less_le_trans)

lemma stale_kept_drain:
  assumes "stale_kept time ws s"
  shows "stale_kept time ws (drain P s)"
proof (rule drain_preserves [where I = "stale_kept time ws"])
  show "stale_kept time ws s" by fact
  show "\<And>v s. stale_kept time ws s \<Longrightarrow> stale_kept time ws (encode_one P v s)"
    by (rule stale_kept_encode_one)
  show "\<And>s. stale_kept time ws s \<Longrightarrow>
      stale_kept time ws (s\<lparr>cached_frames := AList.delete (waiting_for_frame s) (cached_frames s)\<rparr>)"
    by (auto simp: stale_kept_def keys_delete)
qed

lemma stale_kept_ExportSucceeded: "stale_kept time ws (ExportSucceeded s) = stale_kept time ws s"
  by (simp add: stale_kept_def ExportSucceeded_fields)

lemma stale_kept_flags:
  "stale_kept time ws (s\<lparr>video_done := b\<rparr>) = stale_kept time ws s"
  "stale_kept time ws (s\<lparr>audio_done := b\<rparr>) = stale_kept time ws s"
  by (simp_all add: stale_kept_def)

lemma stale_kept_update:
  "stale_kept time ws s \<Longrightarrow> stale_kept time ws (s\<lparr>cached_frames := AList.update t v (cached_frames s)\<rparr>)"
  by (simp add: stale_kept_def keys_update)

lemma stale_kept_EncodeFrame: "stale_kept time ws s \<Longrightarrow> stale_kept time ws (EncodeFrame P t v s)"
  by (simp add: EncodeFrame_def Let_def stale_kept_ExportSucceeded stale_kept_flags
      stale_kept_update stale_kept_drain stale_kept_encode_one)

lemma stale_kept_FrameRendered:
  "stale_kept time ws s \<Longrightarrow> stale_kept time ws (FrameRendered P t v s)"
  unfolding FrameRendered_def Let_def
  by (rule fold_preserves [where I = "stale_kept time ws"]) (simp_all add: stale_kept_EncodeFrame)

lemma stale_kept_deliver: "stale_kept time ws s \<Longrightarrow> stale_kept time ws (deliver P s e)"
proof (cases e)
  case (CachedFrameReady t v)
  then show "stale_kept time ws s \<Longrightarrow> stale_kept time ws (deliver P s e)"
    by (simp add: deliver_def stale_kept_FrameRendered)
qed (simp_all add: deliver_def stale_kept_def VideoHashesComplete_fields
      EncoderOpenedSuccessfully_fields EncoderOpenFailed_fields EncoderClosed_fields
      AudioRendered_fields AudioEncodeComplete_fields written_append)

lemma stale_kept_run: "stale_kept time ws s \<Longrightarrow> stale_kept time ws (run P s es)"
  unfolding run_def
  by (rule foldl_preserves [where I = "stale_kept time ws"]) (simp_all add: stale_kept_deliver)






lemma in_ranges_simps:
  "in_ranges [] t = False"
  "in_ranges ((a, b) # rs) t = ((a \<le> t \<and> t < b) \<or> in_ranges rs t)"
  "in_ranges (rs @ rs') t = (in_ranges rs t \<or> in_ranges rs' t)"
  by (simp_all add: in_ranges_def list_ex_iff) blast

lemma in_range_minus:
  "in_ranges (range_minus (a, b) (x, y)) t \<longleftrightarrow> (a \<le> t \<and> t < b) \<and> \<not> (x \<le> t \<and> t < y)"
  by (auto simp: in_ranges_simps)

lemma in_RemoveTimeRange:
  "in_ranges (RemoveTimeRange (x, y) rs) t \<longleftrightarrow> in_ranges rs t \<and> \<not> (x \<le> t \<and> t < y)"
proof (induction rs)
  case Nil
  then show ?case by (simp add: RemoveTimeRange_def in_ranges_simps)
next
  case (Cons r rs)
  obtain a b where r: "r = (a, b)" by (cases r)
  have "RemoveTimeRange (x, y) (r # rs) = range_minus (a, b) (x, y) @ RemoveTimeRange (x, y) rs"
    by (simp add: RemoveTimeRange_def r)
  then show ?case
    using Cons.IH by (simp only: in_ranges_simps in_range_minus r) blast
qed

lemma in_fold_RemoveTimeRange:
  "in_ranges (fold (\<lambda>j. RemoveTimeRange (fst j, fst j + tb)) ds rs) t \<longleftrightarrow>
     in_ranges rs t \<and> (\<forall>d\<in>set ds. \<not> (fst d \<le> t \<and> t < fst d + tb))"
  by (induction ds arbitrary: rs) (auto simp: in_RemoveTimeRange)

lemma QMap_value_upd:
  "QMap_value (mf(k \<mapsto> v)) h = (if h = k then v else QMap_value mf h)"
  by (simp add: QMap_value_def)

text \<open>One pass of the inner loop, in closed form.\<close>

lemma scan_j_result:
  "scan_j tb i js (rs, mf) = ((rs', mf'), m') \<Longrightarrow>
     m' = filter (\<lambda>j. \<not> (fst i \<noteq> fst j \<and> snd i = snd j)) js \<and>
     rs' = fold (\<lambda>j. RemoveTimeRange (fst j, fst j + tb))
             (filter (\<lambda>j. fst i \<noteq> fst j \<and> snd i = snd j) js) rs \<and>
     (\<forall>h. QMap_value mf' h =
          (if h = snd i
           then QMap_value mf h @ map fst (filter (\<lambda>j. fst i \<noteq> fst j \<and> snd i = snd j) js)
           else QMap_value mf h))"
proof (induction js arbitrary: rs mf rs' mf' m')
  case Nil
  then show ?case by simp
next
  case (Cons j js)
  show ?case
  proof (cases "fst i \<noteq> fst j \<and> snd i = snd j")
    case True
    with Cons.prems have
      "scan_j tb i js (RemoveTimeRange (fst j, fst j + tb) rs,
          mf(snd i \<mapsto> QMap_value mf (snd i) @ [fst j])) = ((rs', mf'), m')"
      by simp
    from Cons.IH [OF this] True show ?thesis
      by (simp add: QMap_value_upd)
  next
    case False
    with Cons.prems obtain m'' where
      r: "scan_j tb i js (rs, mf) = ((rs', mf'), m'')" and m': "m' = j # m''"
      by (auto split: prod.splits)
    from Cons.IH [OF r] False m' show ?thesis
      by simp
  qed
qed

lemma times_with_Cons:
  "times_with h (e # es) = (if snd e = h then fst e # times_with h es else times_with h es)"
  by (simp add: times_with_def)

text \<open>
  The outer loop, from the moment its iterator has passed the entries \<open>vis\<close> that are still
  in the map: the entries \<open>es\<close> ahead are in the map unless their hash is that of a visited
  entry.
\<close>

lemma scan_i_result:
  assumes "scan_i tb es m (rs, mf) = ((rs', mf'), m')"
    and "m = vis @ filter (\<lambda>e. snd e \<notin> snd ` set vis) es"
    and "distinct (map fst (vis @ es))"
  shows "(\<forall>h. QMap_value mf' h =
             QMap_value mf h @ (if h \<in> snd ` set vis then [] else tl (times_with h es))) \<and>
         (\<forall>t. in_ranges rs' t \<longleftrightarrow>
             in_ranges rs t \<and>
             (\<forall>h. h \<notin> snd ` set vis \<longrightarrow>
                (\<forall>d\<in>set (tl (times_with h es)). \<not> (d \<le> t \<and> t < d + tb))))"
  using assms
proof (induction es arbitrary: vis m rs mf)
  case Nil
  then show ?case by (simp add: times_with_def)
next
  case (Cons i es)
  let ?H = "snd ` set vis"
  from Cons.prems(3) have dist: "distinct (map fst (vis @ es))"
    and fresh_vis: "fst i \<notin> fst ` set vis" and fresh_es: "fst i \<notin> fst ` set es"
    by auto
  show ?case
  proof (cases "snd i \<in> ?H")
    case True
    then have m: "m = vis @ filter (\<lambda>e. snd e \<notin> ?H) es"
      using Cons.prems(2) by simp
    have "fst i \<notin> fst ` set m"
      unfolding m using fresh_vis fresh_es by auto
    with Cons.prems(1) have "scan_i tb es m (rs, mf) = ((rs', mf'), m')"
      by simp
    from Cons.IH [OF this m dist] True show ?thesis
      by (auto simp: times_with_Cons)
  next
    case False
    then have m: "m = vis @ i # filter (\<lambda>e. snd e \<notin> ?H) es"
      using Cons.prems(2) by simp
    then have inm: "fst i \<in> fst ` set m" by simp
    obtain rs1 mf1 m1 where sj: "scan_j tb i m (rs, mf) = ((rs1, mf1), m1)"
      by (metis prod.exhaust)
    with Cons.prems(1) inm have si: "scan_i tb es m1 (rs1, mf1) = ((rs', mf'), m')"
      by simp
    have match: "filter (\<lambda>j. fst i \<noteq> fst j \<and> snd i = snd j) m = filter (\<lambda>e. snd e = snd i) es"
    proof -
      have "filter (\<lambda>j. fst i \<noteq> fst j \<and> snd i = snd j) vis = []"
        using False by (auto simp: filter_empty_conv)
      moreover have "filter (\<lambda>j. fst i \<noteq> fst j \<and> snd i = snd j) (filter (\<lambda>e. snd e \<notin> ?H) es) =
          filter (\<lambda>e. snd e = snd i) es"
        using False fresh_es by (auto intro!: filter_cong simp: image_iff)
      ultimately show ?thesis
        unfolding m by simp
    qed
    have keep: "filter (\<lambda>j. \<not> (fst i \<noteq> fst j \<and> snd i = snd j)) m =
        (vis @ [i]) @ filter (\<lambda>e. snd e \<notin> snd ` set (vis @ [i])) es"
    proof -
      have "filter (\<lambda>j. \<not> (fst i \<noteq> fst j \<and> snd i = snd j)) vis = vis"
        using False by (auto simp: filter_id_conv)
      moreover have "filter (\<lambda>j. \<not> (fst i \<noteq> fst j \<and> snd i = snd j)) (filter (\<lambda>e. snd e \<notin> ?H) es) =
          filter (\<lambda>e. snd e \<notin> snd ` set (vis @ [i])) es"
        using fresh_es by (auto intro!: filter_cong simp: image_iff)
      ultimately show ?thesis
        unfolding m by simp
    qed
    from scan_j_result [OF sj] have
      m1: "m1 = (vis @ [i]) @ filter (\<lambda>e. snd e \<notin> snd ` set (vis @ [i])) es"
      and rs1: "rs1 = fold (\<lambda>j. RemoveTimeRange (fst j, fst j + tb))
                       (filter (\<lambda>e. snd e = snd i) es) rs"
      and mf1: "\<And>h. QMap_value mf1 h =
          (if h = snd i then QMap_value mf h @ times_with (snd i) es else QMap_value mf h)"
      unfolding match keep times_with_def by auto
    have dist1: "distinct (map fst ((vis @ [i]) @ es))"
      using Cons.prems(3) by auto
    note IH = Cons.IH [OF si m1 dist1]
    have r1: "in_ranges rs1 t \<longleftrightarrow>
        in_ranges rs t \<and> (\<forall>d\<in>set (times_with (snd i) es). \<not> (d \<le> t \<and> t < d + tb))" for t
      unfolding rs1 in_fold_RemoveTimeRange times_with_def by auto
    have c1: "QMap_value mf' h =
        QMap_value mf h @ (if h \<in> ?H then [] else tl (times_with h (i # es)))" for h
      using IH [THEN conjunct1, rule_format, of h] False
      by (auto simp: mf1 times_with_Cons)
    have c2: "in_ranges rs' t \<longleftrightarrow>
        in_ranges rs t \<and>
        (\<forall>h. h \<notin> ?H \<longrightarrow> (\<forall>d\<in>set (tl (times_with h (i # es))). \<not> (d \<le> t \<and> t < d + tb)))" for t
    proof -
      have "in_ranges rs' t \<longleftrightarrow>
          in_ranges rs1 t \<and>
          (\<forall>h. h \<notin> snd ` set (vis @ [i]) \<longrightarrow>
             (\<forall>d\<in>set (tl (times_with h es)). \<not> (d \<le> t \<and> t < d + tb)))"
        using IH [THEN conjunct2, rule_format, of t] .
      also have "\<dots> \<longleftrightarrow>
          in_ranges rs t \<and>
          (\<forall>h. h \<notin> ?H \<longrightarrow> (\<forall>d\<in>set (tl (times_with h (i # es))). \<not> (d \<le> t \<and> t < d + tb)))"
        unfolding r1 using False by (auto simp: times_with_Cons split: if_splits)
      finally show ?thesis .
    qed
    from c1 c2 show ?thesis by blast
  qed
qed

lemma requests_in_mode_invalidate:
  "requests_in_mode (Some kRenderOnly) (map (\<lambda>(a, b). VideoInvalidateCache a b) rr) = rr"
  by (induction rr) auto

lemma after_hashes:
  "matched_frames (hashed P audio tb len hm) =
     snd (fst (scan_i tb hm hm ([(0, len)], Map.empty)))"
  "render_requests (trace (hashed P audio tb len hm)) =
     fst (fst (scan_i tb hm hm ([(0, len)], Map.empty)))"
  "waiting_for_frame (hashed P audio tb len hm) = 0"
  "cached_frames (hashed P audio tb len hm) = []"
  "written (trace (hashed P audio tb len hm)) = []"
  "time_base (hashed P audio tb len hm) = tb"
  "viewer_length (hashed P audio tb len hm) = len"
  "time_hash_map (hashed P audio tb len hm) = hm"
  "conn_frames (hashed P audio tb len hm)"
  "\<not> deleted (hashed P audio tb len hm)"
proof -
  let ?j = "job True audio tb len hm True"
  let ?o = "EncoderOpenedSuccessfully ?j"
  let ?s = "hashed P audio tb len hm"
  have o: "deliver P ?j OpenSucceeded = ?o"
    by (simp add: deliver_def job_fields job_conn)
  have oc: "conn_hashes ?o" "\<not> deleted ?o"
    by (simp_all add: EncoderOpenedSuccessfully_def job_fields emit_def Let_def)
  have s: "?s = VideoHashesComplete ?o"
    unfolding hashed_def run_def by (simp add: o) (simp add: deliver_def oc)
  have of: "matched_frames ?o = Map.empty" "time_base ?o = tb" "viewer_length ?o = len"
    "time_hash_map ?o = hm" "waiting_for_frame ?o = 0" "cached_frames ?o = []"
    "written (trace ?o) = []"
    by (simp_all add: EncoderOpenedSuccessfully_fields job_fields)
  show "matched_frames ?s = snd (fst (scan_i tb hm hm ([(0, len)], Map.empty)))"
    unfolding s by (simp add: VideoHashesComplete_def emit_def Let_def of split: prod.splits)
  show "render_requests (trace ?s) = fst (fst (scan_i tb hm hm ([(0, len)], Map.empty)))"
    unfolding s render_requests_def VideoHashesComplete_trace
    by (simp add: EncoderOpenedSuccessfully_trace job_fields job_trace of
        requests_in_mode_invalidate)
  show "waiting_for_frame ?s = 0" "cached_frames ?s = []" "written (trace ?s) = []"
    "time_base ?s = tb" "viewer_length ?s = len" "time_hash_map ?s = hm"
    unfolding s by (simp_all add: VideoHashesComplete_fields of)
  show "conn_frames ?s" "\<not> deleted ?s"
    unfolding s by (simp_all add: VideoHashesComplete_def emit_def Let_def oc split: prod.splits)
qed

lemma spaced_apart:
  "sorted_wrt (\<lambda>a b. a + tb \<le> b) xs \<Longrightarrow> x \<in> set xs \<Longrightarrow> y \<in> set xs \<Longrightarrow>
   x = y \<or> x + tb \<le> y \<or> y + tb \<le> (x :: rat)"
  by (induction xs) auto

lemma spaced_distinct:
  "0 < tb \<Longrightarrow> sorted_wrt (\<lambda>a b. a + tb \<le> b) xs \<Longrightarrow> distinct (xs :: rat list)"
  by (induction xs) auto

lemma times_with_set: "d \<in> set (times_with h m) \<longleftrightarrow> (d, h) \<in> set m"
  by (auto simp: times_with_def image_iff)

lemma times_with_distinct: "distinct (map fst m) \<Longrightarrow> distinct (times_with h m)"
  unfolding times_with_def by (rule distinct_map_filter)

lemma hd_notin_tl: "distinct xs \<Longrightarrow> xs \<noteq> [] \<Longrightarrow> hd xs \<notin> set (tl xs)"
  by (cases xs) auto

lemma in_set_tl: "x \<in> set (tl xs) \<Longrightarrow> x \<in> set xs"
  by (cases xs) auto

text \<open>The result of the two loops on a map with distinct keys, started with no matches.\<close>

lemma scan_all:
  assumes "distinct (map fst hm)"
  shows "QMap_value (snd (fst (scan_i tb hm hm (rs, Map.empty)))) h = tl (times_with h hm)"
    and "in_ranges (fst (fst (scan_i tb hm hm (rs, Map.empty)))) t \<longleftrightarrow>
           in_ranges rs t \<and>
           (\<forall>h. \<forall>d\<in>set (tl (times_with h hm)). \<not> (d \<le> t \<and> t < d + tb))"
proof -
  obtain rs' mf' m' where r: "scan_i tb hm hm (rs, Map.empty) = ((rs', mf'), m')"
    by (metis prod.exhaust)
  from scan_i_result [OF r, of "[]"] assms
  show "QMap_value (snd (fst (scan_i tb hm hm (rs, Map.empty)))) h = tl (times_with h hm)"
    and "in_ranges (fst (fst (scan_i tb hm hm (rs, Map.empty)))) t \<longleftrightarrow>
           in_ranges rs t \<and>
           (\<forall>h. \<forall>d\<in>set (tl (times_with h hm)). \<not> (d \<le> t \<and> t < d + tb))"
    unfolding r by (simp_all add: QMap_value_def)
qed

lemma primary_not_removed:
  assumes tb: "0 < tb"
    and sp: "sorted_wrt (\<lambda>a b. a + tb \<le> b) (map fst hm)"
    and p: "times_with h hm \<noteq> []"
    and d: "d \<in> set (tl (times_with h' hm))"
  shows "\<not> (d \<le> hd (times_with h hm) \<and> hd (times_with h hm) < d + tb)"
proof -
  let ?p = "hd (times_with h hm)"
  have dist: "distinct (map fst hm)"
    using tb sp by (rule spaced_distinct)
  have ph: "(?p, h) \<in> set hm"
    using p by (simp add: times_with_set [symmetric])
  have dh: "(d, h') \<in> set hm"
    using d by (simp add: times_with_set [symmetric] in_set_tl)
  have "d \<noteq> ?p"
  proof
    assume eq: "d = ?p"
    with ph dh dist have "h' = h"
      by (metis eq_key_imp_eq_value)
    with d eq have "?p \<in> set (tl (times_with h hm))" by simp
    with hd_notin_tl [OF times_with_distinct [OF dist] p] show False by simp
  qed
  moreover have "d = ?p \<or> d + tb \<le> ?p \<or> ?p + tb \<le> d"
  proof (rule spaced_apart [OF sp])
    show "d \<in> set (map fst hm)" using dh by force
    show "?p \<in> set (map fst hm)" using ph by force
  qed
  ultimately show ?thesis
    using tb by auto
qed

section \<open>Properties\<close>

text \<open>
  Claim C1. With a positive time base, whatever signals arrive and in whatever order, the
  frames handed to \<open>WriteFrame\<close> carry strictly increasing timestamps. A frame whose
  timestamp is not the expected one is only stored in \<open>cached_frames_\<close>. A frame with the
  expected timestamp \<open>time\<close> is written, followed by the cached frames of the timestamps
  \<open>time + time_base\<close>, ..., \<open>time + k * time_base\<close>, which leave the cache, where
  \<open>time + (k + 1) * time_base\<close> is the first timestamp that is not cached: it becomes the
  expected timestamp.
\<close>

theorem frames_written_in_order:
  "0 < tb \<Longrightarrow>
     sorted_wrt (<) (map timestamp (written (trace (run P (job True audio tb len hm ok) es)))) \<and>
     (time \<noteq> waiting_for_frame s \<longrightarrow>
        EncodeFrame P time v s = s\<lparr>cached_frames := AList.update time v (cached_frames s)\<rparr>) \<and>
     (time_base s = tb \<and> time = waiting_for_frame s \<longrightarrow>
        (\<exists>k. map timestamp (written (trace (EncodeFrame P time v s))) =
               map timestamp (written (trace s)) @ map (\<lambda>n. time + of_nat n * tb) [0..<Suc k] \<and>
             (\<forall>n. 1 \<le> n \<and> n \<le> k \<longrightarrow> time + of_nat n * tb \<in> fst ` set (cached_frames s)) \<and>
             time + of_nat (Suc k) * tb \<notin> fst ` set (cached_frames s) \<and>
             waiting_for_frame (EncodeFrame P time v s) = time + of_nat (Suc k) * tb \<and>
             (\<forall>t. map_of (cached_frames (EncodeFrame P time v s)) t =
                  (if \<exists>n. 1 \<le> n \<and> n \<le> k \<and> t = time + of_nat n * tb
                   then None else map_of (cached_frames s) t))))"
proof (intro conjI impI)
  assume tb: "0 < tb"
  let ?s = "run P (job True audio tb len hm ok) es"
  have "in_order ?s"
    by (rule in_order_run) (rule in_order_job)
  moreover have "time_base ?s = tb"
    by (simp add: run_env job_fields)
  ultimately show "sorted_wrt (<) (map timestamp (written (trace ?s)))"
    using tb by (simp add: in_order_def sorted_frame_times)
next
  assume "time \<noteq> waiting_for_frame s"
  then show "EncodeFrame P time v s = s\<lparr>cached_frames := AList.update time v (cached_frames s)\<rparr>"
    by (rule EncodeFrame_other)
next
  assume "0 < tb" and "time_base s = tb \<and> time = waiting_for_frame s"
  then show "\<exists>k. map timestamp (written (trace (EncodeFrame P time v s))) =
               map timestamp (written (trace s)) @ map (\<lambda>n. time + of_nat n * tb) [0..<Suc k] \<and>
             (\<forall>n. 1 \<le> n \<and> n \<le> k \<longrightarrow> time + of_nat n * tb \<in> fst ` set (cached_frames s)) \<and>
             time + of_nat (Suc k) * tb \<notin> fst ` set (cached_frames s) \<and>
             waiting_for_frame (EncodeFrame P time v s) = time + of_nat (Suc k) * tb \<and>
             (\<forall>t. map_of (cached_frames (EncodeFrame P time v s)) t =
                  (if \<exists>n. 1 \<le> n \<and> n \<le> k \<and> t = time + of_nat n * tb
                   then None else map_of (cached_frames s) t))"
    using EncodeFrame_run [of s P v] by simp
qed

theorem frames_written_in_order_witness:
  "(0::rat) < 1 \<and>
   sorted_wrt (<) (map timestamp (written (trace
     (run example_pipeline (job True False 1 3 example_map True)
        [OpenSucceeded, VideoQueueComplete, CachedFrameReady 2 12, CachedFrameReady 1 11,
         CachedFrameReady 0 10])))) \<and>
   map timestamp (written (trace
     (run example_pipeline (job True False 1 3 example_map True)
        [OpenSucceeded, VideoQueueComplete, CachedFrameReady 2 12, CachedFrameReady 1 11,
         CachedFrameReady 0 10]))) = [0, 1, 2] \<and>
   time_base example_job = 1 \<and> 0 = waiting_for_frame example_job \<and>
   map fst (cached_frames example_job) = [2, 1] \<and>
   (\<exists>k. map timestamp (written (trace (EncodeFrame example_pipeline 0 10 example_job))) =
          map timestamp (written (trace example_job)) @ map (\<lambda>n. 0 + of_nat n * 1) [0..<Suc k] \<and>
        (\<forall>n. 1 \<le> n \<and> n \<le> k \<longrightarrow> 0 + of_nat n * 1 \<in> fst ` set (cached_frames example_job)) \<and>
        0 + of_nat (Suc k) * 1 \<notin> fst ` set (cached_frames example_job) \<and>
        waiting_for_frame (EncodeFrame example_pipeline 0 10 example_job) = 0 + of_nat (Suc k) * 1 \<and>
        (\<forall>t. map_of (cached_frames (EncodeFrame example_pipeline 0 10 example_job)) t =
             (if \<exists>n. 1 \<le> n \<and> n \<le> k \<and> t = 0 + of_nat n * 1
              then None else map_of (cached_frames example_job) t)))"
proof -
  have pos: "(0::rat) < 1" by simp
  have st: "time_base example_job = 1 \<and> 0 = waiting_for_frame example_job"
    by code_simp
  have keys: "map fst (cached_frames example_job) = [2, 1]"
    by code_simp
  have ts: "map timestamp (written (trace
     (run example_pipeline (job True False 1 3 example_map True)
        [OpenSucceeded, VideoQueueComplete, CachedFrameReady 2 12, CachedFrameReady 1 11,
         CachedFrameReady 0 10]))) = [0, 1, 2]"
    by code_simp
  note inst = frames_written_in_order [OF pos, where P = example_pipeline and audio = False
      and len = 3 and hm = example_map and ok = True and s = example_job and time = 0
      and v = 10 and es = "[OpenSucceeded, VideoQueueComplete, CachedFrameReady 2 12,
         CachedFrameReady 1 11, CachedFrameReady 0 10]"]
  from inst st have run: "\<exists>k. map timestamp (written (trace (EncodeFrame example_pipeline 0 10 example_job))) =
          map timestamp (written (trace example_job)) @ map (\<lambda>n. 0 + of_nat n * 1) [0..<Suc k] \<and>
        (\<forall>n. 1 \<le> n \<and> n \<le> k \<longrightarrow> 0 + of_nat n * 1 \<in> fst ` set (cached_frames example_job)) \<and>
        0 + of_nat (Suc k) * 1 \<notin> fst ` set (cached_frames example_job) \<and>
        waiting_for_frame (EncodeFrame example_pipeline 0 10 example_job) = 0 + of_nat (Suc k) * 1 \<and>
        (\<forall>t. map_of (cached_frames (EncodeFrame example_pipeline 0 10 example_job)) t =
             (if \<exists>n. 1 \<le> n \<and> n \<le> k \<and> t = 0 + of_nat n * 1
              then None else map_of (cached_frames example_job) t))"
    by blast
  from inst have "sorted_wrt (<) (map timestamp (written (trace
     (run example_pipeline (job True False 1 3 example_map True)
        [OpenSucceeded, VideoQueueComplete, CachedFrameReady 2 12, CachedFrameReady 1 11,
         CachedFrameReady 0 10]))))"
    by blast
  with pos st keys ts run show ?thesis by blast
qed

text \<open>
  Claim C6. When the encoder reports that it could not be opened, the job ends there: whatever
  signals arrive afterwards, no \<open>InvalidateCache\<close> request (hash or render) has been sent
  to either backend, \<open>ExportEnded\<close> has been emitted exactly once, the export status is
  false and the message is the open-failure diagnostic.
\<close>

theorem open_failure_ends_job:
  "filter is_request
     (trace (run P (deliver P (job video audio tb len hm True) OpenFailed) es)) = [] \<and>
   filter (\<lambda>a. a = ExportEnded)
     (trace (run P (deliver P (job video audio tb len hm True) OpenFailed) es)) = [ExportEnded] \<and>
   export_status (run P (deliver P (job video audio tb len hm True) OpenFailed) es) = False \<and>
   export_msg (run P (deliver P (job video audio tb len hm True) OpenFailed) es) =
     ''Failed to open encoder''"
proof -
  let ?j = "job video audio tb len hm True :: ('a, 'b) exporter"
  have d: "deliver P ?j OpenFailed = EncoderOpenFailed ?j"
    by (simp add: deliver_def job_fields job_conn)
  have r: "run P (EncoderOpenFailed ?j) es = EncoderOpenFailed ?j"
    by (rule run_deleted) (simp add: EncoderOpenFailed_fields)
  show ?thesis
    unfolding d r by (simp add: EncoderOpenFailed_fields job_fields job_trace)
qed

text \<open>
  Claim C7, as the code behaves. With neither stream enabled \<open>StartExporting\<close> only asks the
  encoder to open. When the encoder has opened nothing further is requested, so no signal
  other than the encoder's can arrive, and such signals change nothing: \<open>ExportEnded\<close>
  is never emitted and the export status stays false.
\<close>

theorem no_stream_job_never_ends:
  "trace (run P (job False False tb len hm True) [OpenSucceeded]) = [EncoderOpen] \<and>
   export_status (run P (job False False tb len hm True) [OpenSucceeded]) = False \<and>
   deleted (run P (job False False tb len hm True) [OpenSucceeded]) = False \<and>
   run P (job False False tb len hm True)
     (filter (\<lambda>e. e \<noteq> OpenFailed \<and> e \<noteq> AudioComplete) es) =
     job False False tb len hm True"
proof -
  let ?j = "job False False tb len hm True :: ('a, 'b) exporter"
  have step: "\<And>e. e \<noteq> OpenFailed \<Longrightarrow> e \<noteq> AudioComplete \<Longrightarrow> deliver P ?j e = ?j"
  proof -
    fix e :: "'a signal"
    assume "e \<noteq> OpenFailed" "e \<noteq> AudioComplete"
    then show "deliver P ?j e = ?j"
      by (cases e) (simp_all add: deliver_def job_fields job_conn EncoderOpenedSuccessfully_def)
  qed
  have all: "run P ?j (filter (\<lambda>e. e \<noteq> OpenFailed \<and> e \<noteq> AudioComplete) es) = ?j"
    unfolding run_def by (induction es) (simp_all add: step)
  have one: "run P ?j [OpenSucceeded] = ?j"
    by (simp add: run_def step)
  show ?thesis
    unfolding one using all by (simp add: job_fields job_trace)
qed



text \<open>
  Claim C9. With a time base that is not negative, a call of \<open>EncodeFrame\<close> for a timestamp
  below the expected one writes no frame and does not move the expected timestamp: it only
  stores the value in \<open>cached_frames_\<close> under that timestamp. Whatever signals follow, the
  timestamp stays a key of the cache, stays below the expected timestamp, and no frame
  written afterwards carries it.
\<close>

theorem stale_frame_stays_cached:
  "0 \<le> time_base s \<Longrightarrow> time < waiting_for_frame s \<Longrightarrow>
     EncodeFrame P time v s = s\<lparr>cached_frames := AList.update time v (cached_frames s)\<rparr> \<and>
     trace (EncodeFrame P time v s) = trace s \<and>
     waiting_for_frame (EncodeFrame P time v s) = waiting_for_frame s \<and>
     map_of (cached_frames (EncodeFrame P time v s)) time = Some v \<and>
     time \<in> fst ` set (cached_frames (run P (EncodeFrame P time v s) es)) \<and>
     time < waiting_for_frame (run P (EncodeFrame P time v s) es) \<and>
     take (length (written (trace s))) (written (trace (run P (EncodeFrame P time v s) es))) =
       written (trace s) \<and>
     list_all (\<lambda>fr. time < timestamp fr)
       (drop (length (written (trace s))) (written (trace (run P (EncodeFrame P time v s) es))))"
proof -
  assume tb: "0 \<le> time_base s" and stale: "time < waiting_for_frame s"
  let ?s = "s\<lparr>cached_frames := AList.update time v (cached_frames s)\<rparr>"
  have e: "EncodeFrame P time v s = ?s"
    using stale by (simp add: EncodeFrame_def)
  have "stale_kept time (written (trace s)) ?s"
    using tb stale by (simp add: stale_kept_def keys_update)
  then have k: "stale_kept time (written (trace s)) (run P ?s es)"
    by (rule stale_kept_run)
  show ?thesis
    unfolding e using k by (simp add: stale_kept_def update_conv')
qed

theorem stale_frame_stays_cached_witness:
  "0 \<le> time_base example_first \<and> 0 < waiting_for_frame example_first \<and>
   trace (EncodeFrame example_pipeline 0 99 example_first) = trace example_first \<and>
   map_of (cached_frames (EncodeFrame example_pipeline 0 99 example_first)) 0 = Some 99 \<and>
   0 \<in> fst ` set (cached_frames (run example_pipeline
          (EncodeFrame example_pipeline 0 99 example_first)
          [CachedFrameReady 1 11, CachedFrameReady 2 12])) \<and>
   0 < waiting_for_frame (run example_pipeline
          (EncodeFrame example_pipeline 0 99 example_first)
          [CachedFrameReady 1 11, CachedFrameReady 2 12]) \<and>
   map pixels (written (trace (run example_pipeline
          (EncodeFrame example_pipeline 0 99 example_first)
          [CachedFrameReady 1 11, CachedFrameReady 2 12]))) = [10, 11, 12]"
proof -
  have h1: "0 \<le> time_base example_first" by code_simp
  have h2: "0 < waiting_for_frame example_first" by code_simp
  have px: "map pixels (written (trace (run example_pipeline
          (EncodeFrame example_pipeline 0 99 example_first)
          [CachedFrameReady 1 11, CachedFrameReady 2 12]))) = [10, 11, 12]"
    by code_simp
  from stale_frame_stays_cached [OF h1 h2, where P = example_pipeline and v = 99
      and es = "[CachedFrameReady 1 11, CachedFrameReady 2 12]"] h1 h2 px
  show ?thesis by blast
qed




text \<open>
  Claim C2. Let the keys of the time-hash map be at least one time base apart and lie in
  \<open>[0, length)\<close>. When the hash pass is complete, for every hash \<open>h\<close> the entry of
  \<open>matched_frames_\<close> is the list of all timestamps with that hash except the earliest, in
  increasing order, wherever they lie in the map; the earliest is covered by the render
  requests and the later ones are not. A timestamp is covered by the render requests
  exactly if it lies in \<open>[0, length)\<close> and not within one time base after such a later
  timestamp.
\<close>

theorem duplicates_collapsed:
  "0 < tb \<Longrightarrow> sorted_wrt (\<lambda>a b. a + tb \<le> b) (map fst hm) \<Longrightarrow>
   list_all (\<lambda>t. 0 \<le> t \<and> t < len) (map fst hm) \<Longrightarrow>
     QMap_value (matched_frames (hashed P audio tb len hm)) h = tl (times_with h hm) \<and>
     (times_with h hm \<noteq> [] \<longrightarrow>
        in_ranges (render_requests (trace (hashed P audio tb len hm))) (hd (times_with h hm))) \<and>
     list_all (\<lambda>d. \<not> in_ranges (render_requests (trace (hashed P audio tb len hm))) d)
        (tl (times_with h hm)) \<and>
     (in_ranges (render_requests (trace (hashed P audio tb len hm))) t \<longleftrightarrow>
        0 \<le> t \<and> t < len \<and>
        (\<forall>h'. \<forall>d\<in>set (tl (times_with h' hm)). \<not> (d \<le> t \<and> t < d + tb)))"
proof -
  assume tb: "0 < tb" and sp: "sorted_wrt (\<lambda>a b. a + tb \<le> b) (map fst hm)"
    and rng: "list_all (\<lambda>t. 0 \<le> t \<and> t < len) (map fst hm)"
  let ?s = "hashed P audio tb len hm"
  let ?rr = "render_requests (trace ?s)"
  have dist: "distinct (map fst hm)"
    using tb sp by (rule spaced_distinct)
  have mf: "QMap_value (matched_frames ?s) h = tl (times_with h hm)"
    by (simp add: after_hashes scan_all [OF dist])
  have cover: "in_ranges ?rr t \<longleftrightarrow>
      0 \<le> t \<and> t < len \<and> (\<forall>h'. \<forall>d\<in>set (tl (times_with h' hm)). \<not> (d \<le> t \<and> t < d + tb))" for t
    by (simp add: after_hashes scan_all [OF dist] in_ranges_simps)
  have prim: "in_ranges ?rr (hd (times_with h hm))" if ne: "times_with h hm \<noteq> []"
  proof -
    from ne have "(hd (times_with h hm), h) \<in> set hm"
      by (simp add: times_with_set [symmetric])
    with rng have "0 \<le> hd (times_with h hm) \<and> hd (times_with h hm) < len"
      by (auto simp: list_all_iff)
    with primary_not_removed [OF tb sp ne] show ?thesis
      unfolding cover by blast
  qed
  have dup: "list_all (\<lambda>d. \<not> in_ranges ?rr d) (tl (times_with h hm))"
    unfolding list_all_iff
  proof
    fix d assume d: "d \<in> set (tl (times_with h hm))"
    have "d \<le> d \<and> d < d + tb" using tb by simp
    with d show "\<not> in_ranges ?rr d"
      unfolding cover by blast
  qed
  from mf prim dup cover show ?thesis by blast
qed

theorem duplicates_collapsed_witness:
  "(0::rat) < 1 \<and> sorted_wrt (\<lambda>a b. a + 1 \<le> b) (map fst example_hashes) \<and>
   list_all (\<lambda>t. 0 \<le> t \<and> t < 5) (map fst example_hashes) \<and>
   times_with ''a'' example_hashes = [0, 2, 4] \<and>
   QMap_value (matched_frames (hashed example_pipeline False 1 5 example_hashes)) ''a'' = [2, 4] \<and>
   in_ranges (render_requests (trace (hashed example_pipeline False 1 5 example_hashes))) 0 \<and>
   list_all (\<lambda>d. \<not> in_ranges
       (render_requests (trace (hashed example_pipeline False 1 5 example_hashes))) d) [2, 4] \<and>
   render_requests (trace (hashed example_pipeline False 1 5 example_hashes)) = [(0, 2), (3, 4)]"
proof -
  have h1: "(0::rat) < 1" by simp
  have h2: "sorted_wrt (\<lambda>a b. a + 1 \<le> b) (map fst example_hashes)"
    by (simp add: example_hashes_def)
  have h3: "list_all (\<lambda>t. 0 \<le> t \<and> t < 5) (map fst example_hashes)"
    by (simp add: example_hashes_def)
  have tw: "times_with ''a'' example_hashes = [0, 2, 4]"
    by (simp add: times_with_def example_hashes_def)
  have rr: "render_requests (trace (hashed example_pipeline False 1 5 example_hashes)) =
      [(0, 2), (3, 4)]"
    by code_simp
  note inst = duplicates_collapsed [OF h1 h2 h3, where P = example_pipeline and audio = False
      and h = "''a''" and t = 0]
  from inst have
    "QMap_value (matched_frames (hashed example_pipeline False 1 5 example_hashes)) ''a'' =
       tl (times_with ''a'' example_hashes)"
    by (rule conjunct1)
  then have a: "QMap_value (matched_frames (hashed example_pipeline False 1 5 example_hashes)) ''a'' =
       [2, 4]"
    by (simp add: tw)
  from inst have "times_with ''a'' example_hashes \<noteq> [] \<longrightarrow>
      in_ranges (render_requests (trace (hashed example_pipeline False 1 5 example_hashes)))
        (hd (times_with ''a'' example_hashes))"
    by blast
  then have b: "in_ranges (render_requests (trace (hashed example_pipeline False 1 5 example_hashes))) 0"
    by (simp add: tw)
  from inst have "list_all (\<lambda>d. \<not> in_ranges
       (render_requests (trace (hashed example_pipeline False 1 5 example_hashes))) d)
       (tl (times_with ''a'' example_hashes))"
    by blast
  then have c: "list_all (\<lambda>d. \<not> in_ranges
       (render_requests (trace (hashed example_pipeline False 1 5 example_hashes))) d) [2, 4]"
    by (simp add: tw)
  from a b c h1 h2 h3 tw rr show ?thesis by blast
qed

text \<open>
  Claim C10. A mouse release emits \<open>MouseClicked\<close> exactly when the cursor is over the
  label at that moment, and emits nothing else; a double click emits
  \<open>MouseDoubleClicked\<close> whatever the cursor position is.
\<close>

theorem clickable_label_signals:
  "mouseReleaseEvent w = (if underMouse w then [MouseClicked] else []) \<and>
   (MouseClicked \<in> set (mouseReleaseEvent w)) = underMouse w \<and>
   MouseDoubleClicked \<notin> set (mouseReleaseEvent w) \<and>
   mouseDoubleClickEvent w = [MouseDoubleClicked] \<and>
   mouseDoubleClickEvent (w\<lparr>underMouse := False\<rparr>) = mouseDoubleClickEvent (w\<lparr>underMouse := True\<rparr>)"
  by (simp add: mouseReleaseEvent_def mouseDoubleClickEvent_def)

end
